theory Spec2Isabelle
  imports Complex_Main
begin

section \<open>Spiral architecture and bispectral invariants\<close>

text \<open>
  A shallow embedding of the notebook \<^verbatim>\<open>Invariants-computation.ipynb\<close> (Python 2).
  Spiral addresses are non-negative Python integers and are modelled as \<open>nat\<close>; pixel
  offsets and array indices are \<open>int\<close>; the entries of the spectrum are complex numbers,
  taken as exact (the rounding of floating point arithmetic and the width of numpy's
  integers are not modelled).
\<close>

subsection \<open>Errors and results\<close>

text \<open>
  \<open>InvalidAddress\<close> stands for the path that prints \<^verbatim>\<open>Invalid spiral address!\<close> and returns
  Python's \<^verbatim>\<open>None\<close>; the other constructors are the Python exceptions of the same name
  (\<open>RuntimeError\<close> is what Python 2 raises at its recursion limit). A result is \<open>None\<close>
  when the recursion budget (fuel) of \<^verbatim>\<open>spiral_add\<close> is exhausted.
\<close>

datatype error = InvalidAddress | IndexError | TypeError | ValueError | RuntimeError

type_synonym 'a result = "(error + 'a) option"

definition bind_r :: "'a result \<Rightarrow> ('a \<Rightarrow> 'b result) \<Rightarrow> 'b result" where
  "bind_r m k = (case m of None \<Rightarrow> None | Some (Inl e) \<Rightarrow> Some (Inl e) | Some (Inr v) \<Rightarrow> k v)"

text \<open>
  A \<^verbatim>\<open>None\<close> that reaches arithmetic (\<^verbatim>\<open>None % 10\<close>, \<^verbatim>\<open>None * 10**i\<close>) raises \<^verbatim>\<open>TypeError\<close>;
  \<^verbatim>\<open>str(None)\<close> stored into an integer array raises \<^verbatim>\<open>ValueError\<close>.
\<close>

definition use_num :: "error \<Rightarrow> 'a result \<Rightarrow> ('a \<Rightarrow> 'b result) \<Rightarrow> 'b result" where
  "use_num exn m k =
     (case m of None \<Rightarrow> None
      | Some (Inl e) \<Rightarrow> Some (Inl (if e = InvalidAddress then exn else e))
      | Some (Inr v) \<Rightarrow> k v)"

subsection \<open>Digits of an integer\<close>

text \<open>
  \<^verbatim>\<open>int2intvec\<close>: the decimal digits, least significant first. The first digit is taken
  before the loop, so \<^verbatim>\<open>int2intvec(0)\<close> is \<^verbatim>\<open>[0]\<close>. On a negative argument the loop of the
  source never ends (\<^verbatim>\<open>a\<close> stays at \<open>-1\<close>); addresses are naturals here.
\<close>

function int2intvec_loop :: "nat \<Rightarrow> nat list" where
  "int2intvec_loop a =
     (if a \<noteq> 0 then (a mod 10) # int2intvec_loop ((a - a mod 10) div 10) else [])"
  by pat_completeness auto
termination
  by (relation "measure (\<lambda>a. a)") auto

declare int2intvec_loop.simps [simp del]

definition int2intvec :: "nat \<Rightarrow> nat list" where
  "int2intvec a = (a mod 10) # int2intvec_loop ((a - a mod 10) div 10)"

subsection \<open>Strings of digits\<close>


definition ALPHABET10 :: string where
  "ALPHABET10 = ''0123456789''"

definition str_nat :: "nat \<Rightarrow> string" where
  "str_nat n = rev (map (\<lambda>d. ALPHABET10 ! d) (int2intvec n))"

fun digit_value :: "char \<Rightarrow> nat option" where
  "digit_value c = map_of (zip ALPHABET10 [0..<10]) c"

definition int_str :: "string \<Rightarrow> error + nat" where
  "int_str s =
     (if s = [] \<or> list_ex (\<lambda>c. digit_value c = None) s then Inl ValueError
      else Inr (foldl (\<lambda>acc c. 10 * acc + the (digit_value c)) 0 s))"

subsection \<open>Base conversion\<close>






subsection \<open>Spiral addition and multiplication\<close>

definition addition_table :: "nat list list" where
  "addition_table =
    [[0, 1, 2, 3, 4, 5, 6],
     [1, 63, 15, 2, 0, 6, 64],
     [2, 15, 14, 26, 3, 0, 1],
     [3, 2, 26, 25, 31, 4, 0],
     [4, 0, 3, 31, 36, 42, 5],
     [5, 6, 0, 4, 42, 41, 53],
     [6, 64, 1, 0, 5, 53, 52]]"

definition multiplication_table :: "nat list list" where
  "multiplication_table =
    [[0, 0, 0, 0, 0, 0, 0],
     [0, 1, 2, 3, 4, 5, 6],
     [0, 2, 3, 4, 5, 6, 1],
     [0, 3, 4, 5, 6, 1, 2],
     [0, 4, 5, 6, 1, 2, 3],
     [0, 5, 6, 1, 2, 3, 4],
     [0, 6, 1, 2, 3, 4, 5]]"

text \<open>\<^verbatim>\<open>table[a][b]\<close> on a list of lists: an index past the end raises \<^verbatim>\<open>IndexError\<close>.\<close>

definition table_get :: "nat list list \<Rightarrow> nat \<Rightarrow> nat \<Rightarrow> error + nat" where
  "table_get t a b =
     (if a < length t then (if b < length (t ! a) then Inr (t ! a ! b) else Inl IndexError)
      else Inl IndexError)"

text \<open>\<^verbatim>\<open>dig.resize(n)\<close> on a shorter array appends zeros.\<close>

definition resize :: "nat list \<Rightarrow> nat \<Rightarrow> nat list" where
  "resize dig n = dig @ replicate (n - length dig) 0"

text \<open>
  The digit loop of \<^verbatim>\<open>spiral_add\<close>, for the recursive call \<open>add\<close>. The first list is
  \<^verbatim>\<open>dig_a[i:]\<close>, the second \<^verbatim>\<open>dig_b[i:]\<close>; the assignment \<^verbatim>\<open>dig_a[i+1] = str(carry_on)\<close>
  replaces the head of the remaining digits of \<open>a\<close>. At the last position the value of the
  recursive call is added whole, scaled by \<open>10 ^ i\<close>.
\<close>

fun spiral_add_loop ::
  "(nat \<Rightarrow> nat \<Rightarrow> nat result) \<Rightarrow> nat list \<Rightarrow> nat list \<Rightarrow> nat \<Rightarrow> nat \<Rightarrow> nat result" where
  "spiral_add_loop add [] bs i res = Some (Inr res)"
| "spiral_add_loop add (a # as) [] i res = Some (Inl IndexError)"
| "spiral_add_loop add [a] (b # bs) i res =
     use_num TypeError (add a b) (\<lambda>last. Some (Inr (res + last * 10 ^ i)))"
| "spiral_add_loop add (a # a' # as) (b # bs) i res =
     use_num TypeError (add a b) (\<lambda>temp.
       use_num ValueError (add a' ((temp - temp mod 10) div 10)) (\<lambda>carry_on.
         spiral_add_loop add (carry_on # as) bs (Suc i) (res + (temp mod 10) * 10 ^ i)))"

text \<open>
  \<^verbatim>\<open>spiral_add(a, b, mod)\<close>. The first argument bounds the depth of the recursion; the
  recursive calls leave \<^verbatim>\<open>mod\<close> at its default \<open>0\<close>. The single-digit case returns the
  table entry and does not look at \<^verbatim>\<open>mod\<close>.
\<close>

fun spiral_add :: "nat \<Rightarrow> nat \<Rightarrow> nat \<Rightarrow> nat \<Rightarrow> nat result" where
  "spiral_add 0 a b m = None"
| "spiral_add (Suc fuel) a b m =
     (let dig_a = int2intvec a; dig_b = int2intvec b in
      if list_ex (\<lambda>d. d < 0 \<or> 7 < d) dig_a \<or> list_ex (\<lambda>d. d < 0 \<or> 7 < d) dig_b
      then Some (Inl InvalidAddress)
      else if length dig_a = 1 \<and> length dig_b = 1 then Some (table_get addition_table a b)
      else
        let dig_a = (if length dig_a < length dig_b then resize dig_a (length dig_b) else dig_a);
            dig_b = (if length dig_b < length dig_a then resize dig_b (length dig_a) else dig_b)
        in bind_r (spiral_add_loop (\<lambda>x y. spiral_add fuel x y 0) dig_a dig_b 0 0)
             (\<lambda>res. Some (Inr (if m \<noteq> 0 then res mod m else res))))"

text \<open>
  \<^verbatim>\<open>spiral_mult(a, b, mod)\<close>: the double loop over \<open>i\<close> (digits of \<open>b\<close>, outer) and \<open>j\<close>
  (digits of \<open>a\<close>, inner). When \<^verbatim>\<open>spiral_add\<close> hands back \<^verbatim>\<open>None\<close>, the next round fails in
  \<^verbatim>\<open>int2intvec(None)\<close> after its table lookup; after the last round \<^verbatim>\<open>None\<close> is returned
  (or \<^verbatim>\<open>None % mod\<close> is attempted).
\<close>

fun spiral_mult_none :: "nat list \<Rightarrow> nat list \<Rightarrow> (nat \<times> nat) list \<Rightarrow> nat \<Rightarrow> nat result" where
  "spiral_mult_none dig_a dig_b [] m = Some (Inl (if m \<noteq> 0 then TypeError else InvalidAddress))"
| "spiral_mult_none dig_a dig_b ((i, j) # ps) m =
     (case table_get multiplication_table (dig_a ! j) (dig_b ! i) of
        Inl e \<Rightarrow> Some (Inl e)
      | Inr t \<Rightarrow> Some (Inl TypeError))"

fun spiral_mult_loop ::
  "(nat \<Rightarrow> nat \<Rightarrow> nat result) \<Rightarrow> nat list \<Rightarrow> nat list \<Rightarrow> (nat \<times> nat) list \<Rightarrow> nat \<Rightarrow> nat \<Rightarrow> nat result"
  where
  "spiral_mult_loop add dig_a dig_b [] m sa_mult =
     Some (Inr (if m \<noteq> 0 then sa_mult mod m else sa_mult))"
| "spiral_mult_loop add dig_a dig_b ((i, j) # ps) m sa_mult =
     (case table_get multiplication_table (dig_a ! j) (dig_b ! i) of
        Inl e \<Rightarrow> Some (Inl e)
      | Inr t \<Rightarrow>
          (case add sa_mult (t * 10 ^ (i + j)) of
             None \<Rightarrow> None
           | Some (Inl e) \<Rightarrow>
               (if e = InvalidAddress then spiral_mult_none dig_a dig_b ps m else Some (Inl e))
           | Some (Inr s) \<Rightarrow> spiral_mult_loop add dig_a dig_b ps m s))"

definition spiral_mult :: "nat \<Rightarrow> nat \<Rightarrow> nat \<Rightarrow> nat \<Rightarrow> nat result" where
  "spiral_mult fuel a b m =
     (let dig_a = int2intvec a; dig_b = int2intvec b in
      if list_ex (\<lambda>d. d < 0 \<or> 7 < d) dig_a \<or> list_ex (\<lambda>d. d < 0 \<or> 7 < d) dig_b
      then Some (Inl InvalidAddress)
      else spiral_mult_loop (\<lambda>x y. spiral_add fuel x y 0) dig_a dig_b
             [(i, j). i \<leftarrow> [0..<length dig_b], j \<leftarrow> [0..<length dig_a]] m 0)"

subsection \<open>Lattice geometry\<close>

text \<open>The centered hyperpel: 56 (row, column) offsets, and its shift by (1, 1).\<close>

definition hyperpel :: "(int \<times> int) list" where
  "hyperpel =
    [(-1, 4), (0, 4), (1, 4), (2, 4), (3, 4),
     (-2, 3), (-1, 3), (0, 3), (1, 3), (2, 3), (3, 3), (4, 3),
     (-2, 2), (-1, 2), (0, 2), (1, 2), (2, 2), (3, 2), (4, 2),
     (-3, 1), (-2, 1), (-1, 1), (0, 1), (1, 1), (2, 1), (3, 1), (4, 1), (5, 1),
     (-3, 0), (-2, 0), (-1, 0), (0, 0), (1, 0), (2, 0), (3, 0), (4, 0), (5, 0),
     (-2, -1), (-1, -1), (0, -1), (1, -1), (2, -1), (3, -1), (4, -1),
     (-2, -2), (-1, -2), (0, -2), (1, -2), (2, -2), (3, -2), (4, -2),
     (-1, -3), (0, -3), (1, -3), (2, -3), (3, -3)]"

definition vec_add :: "int \<times> int \<Rightarrow> int \<times> int \<Rightarrow> int \<times> int" where
  "vec_add p q = (fst p + fst q, snd p + snd q)"

definition vec_scale :: "int \<Rightarrow> int \<times> int \<Rightarrow> int \<times> int" where
  "vec_scale c p = (c * fst p, c * snd p)"

definition hyperpel_sa :: "(int \<times> int) list" where
  "hyperpel_sa = map (\<lambda>p. vec_add p (-1, -1)) hyperpel"

text \<open>
  \<^verbatim>\<open>sa2hex_aux(a, zeros)\<close>. At \<open>zeros = 0\<close> a symbol outside \<open>0..6\<close> falls through to the
  recursive line with \<open>zeros - 1\<close> and never reaches a base case: Python stops it with its
  recursion limit.
\<close>

fun sa2hex_aux :: "nat \<Rightarrow> nat \<Rightarrow> error + (int \<times> int)" where
  "sa2hex_aux a 0 =
     (if a = 0 then Inr (0, 0)
      else if a = 1 then Inr (0, 8)
      else if a = 2 then Inr (-7, 4)
      else if a = 3 then Inr (-7, -4)
      else if a = 4 then Inr (0, -8)
      else if a = 5 then Inr (7, -4)
      else if a = 6 then Inr (7, 4)
      else Inl RuntimeError)"
| "sa2hex_aux a (Suc zeros) =
     (case sa2hex_aux a zeros of
        Inl e \<Rightarrow> Inl e
      | Inr p \<Rightarrow>
          (case sa2hex_aux (a mod 6 + 1) zeros of
             Inl e \<Rightarrow> Inl e
           | Inr q \<Rightarrow> Inr (vec_add p (vec_scale 2 q))))"

text \<open>
  \<^verbatim>\<open>sa2hex\<close>: the loop over the reversed decimal string. A digit above \<open>6\<close> prints the
  message and returns \<^verbatim>\<open>None\<close> at once; a digit other than \<^verbatim>\<open>'0'\<close> adds its offset.
\<close>

fun sa2hex_loop :: "string \<Rightarrow> nat \<Rightarrow> int \<times> int \<Rightarrow> error + (int \<times> int)" where
  "sa2hex_loop [] i hex_address = Inr hex_address"
| "sa2hex_loop (c # digits) i hex_address =
     (case int_str [c] of
        Inl e \<Rightarrow> Inl e
      | Inr d \<Rightarrow>
          if d < 0 \<or> 6 < d then Inl InvalidAddress
          else if c \<noteq> CHR ''0'' then
            (case sa2hex_aux d i of
               Inl e \<Rightarrow> Inl e
             | Inr v \<Rightarrow> sa2hex_loop digits (Suc i) (vec_add hex_address v))
          else sa2hex_loop digits (Suc i) hex_address)"

definition sa2hex :: "nat \<Rightarrow> error + (int \<times> int)" where
  "sa2hex spiral_address = sa2hex_loop (rev (str_nat spiral_address)) 0 (0, 0)"

subsection \<open>Grids and hyperpel values\<close>

text \<open>
  A two-dimensional numpy array: its shape and its cells. An index \<open>r\<close> is legal when
  \<open>-rows \<le> r < rows\<close>, a negative one counting from the end; any other raises
  \<^verbatim>\<open>IndexError\<close>.
\<close>

record grid =
  rows :: nat
  cols :: nat
  cell :: "nat \<Rightarrow> nat \<Rightarrow> complex"

definition grid_get :: "grid \<Rightarrow> int \<Rightarrow> int \<Rightarrow> error + complex" where
  "grid_get g r c =
     (if - int (rows g) \<le> r \<and> r < int (rows g) \<and> - int (cols g) \<le> c \<and> c < int (cols g)
      then Inr (cell g (nat (if r < 0 then r + int (rows g) else r))
                       (nat (if c < 0 then c + int (cols g) else c)))
      else Inl IndexError)"

text \<open>The accumulation \<^verbatim>\<open>val += oversampled_image[hp[i,0], hp[i,1]]\<close> over the footprint.\<close>

fun sa_value_loop :: "grid \<Rightarrow> (int \<times> int) list \<Rightarrow> complex \<Rightarrow> error + complex" where
  "sa_value_loop g [] val = Inr val"
| "sa_value_loop g (p # hp) val =
     (case grid_get g (fst p) (snd p) of
        Inl e \<Rightarrow> Inl e
      | Inr x \<Rightarrow> sa_value_loop g hp (val + x))"

text \<open>
  \<^verbatim>\<open>sa_value\<close>: when \<^verbatim>\<open>sa2hex\<close> returned \<^verbatim>\<open>None\<close>, adding it to the footprint array raises
  \<^verbatim>\<open>TypeError\<close>.
\<close>

definition sa_value :: "grid \<Rightarrow> nat \<Rightarrow> error + complex" where
  "sa_value oversampled_image spiral_address =
     (case sa2hex spiral_address of
        Inl e \<Rightarrow> Inl (if e = InvalidAddress then TypeError else e)
      | Inr center \<Rightarrow>
          (case sa_value_loop oversampled_image (map (\<lambda>p. vec_add p center) hyperpel_sa) 0 of
             Inl e \<Rightarrow> Inl e
           | Inr val \<Rightarrow> Inr (val / 56)))"

subsection \<open>Invariants\<close>

text \<open>
  \<^verbatim>\<open>omegaf\<close> fills an array of six zeros, slot \<open>i - 1\<close> for \<open>i = 1, ..., 6\<close>. When
  \<^verbatim>\<open>spiral_mult\<close> hands back \<^verbatim>\<open>None\<close>, \<^verbatim>\<open>sa2hex\<close> fails on the string \<^verbatim>\<open>'None'\<close> with
  \<^verbatim>\<open>ValueError\<close>.
\<close>

fun omegaf_loop :: "nat \<Rightarrow> grid \<Rightarrow> nat \<Rightarrow> nat list \<Rightarrow> complex list \<Rightarrow> complex list result" where
  "omegaf_loop fuel g sa [] omegaf = Some (Inr omegaf)"
| "omegaf_loop fuel g sa (i # is) omegaf =
     use_num ValueError (spiral_mult fuel sa i 0) (\<lambda>m.
       case sa_value g m of
         Inl e \<Rightarrow> Some (Inl e)
       | Inr v \<Rightarrow>
           if i - 1 < length omegaf then omegaf_loop fuel g sa is (omegaf[i - 1 := v])
           else Some (Inl IndexError))"

definition omegaf :: "nat \<Rightarrow> grid \<Rightarrow> nat \<Rightarrow> complex list result" where
  "omegaf fuel fft_oversampled sa = omegaf_loop fuel fft_oversampled sa [1..<7] (replicate 6 0)"

text \<open>\<^verbatim>\<open>np.vdot(x, y)\<close> conjugates its first argument.\<close>

definition vdot :: "complex list \<Rightarrow> complex list \<Rightarrow> complex" where
  "vdot xs ys = (\<Sum>p \<leftarrow> zip xs ys. cnj (fst p) * snd p)"

definition invariant :: "nat \<Rightarrow> grid \<Rightarrow> nat \<Rightarrow> nat \<Rightarrow> nat \<Rightarrow> complex result" where
  "invariant fuel fft_oversampled sa1 sa2 sa3 =
     bind_r (omegaf fuel fft_oversampled sa1) (\<lambda>omega1.
     bind_r (omegaf fuel fft_oversampled sa2) (\<lambda>omega2.
     bind_r (omegaf fuel fft_oversampled sa3) (\<lambda>omega3.
       Some (Inr (vdot (map (\<lambda>p. fst p * snd p) (zip omega1 omega2)) omega3)))))"

subsection \<open>The bispectrum\<close>





section \<open>Vocabulary of the specification\<close>

text \<open>A valid spiral address: every decimal digit lies in \<open>0..6\<close>.\<close>

definition valid_address :: "nat \<Rightarrow> bool" where
  "valid_address a = list_all (\<lambda>d. d \<le> 6) (int2intvec a)"

text \<open>The value of a digit list, least significant first, in base ten and in base seven.\<close>

fun int_of_digits :: "nat list \<Rightarrow> nat" where
  "int_of_digits [] = 0"
| "int_of_digits (d # ds) = d + 10 * int_of_digits ds"


text \<open>The decimal digit of \<open>n\<close> at position \<open>i\<close> (position \<open>0\<close> is the least significant).\<close>

definition digit :: "nat \<Rightarrow> nat \<Rightarrow> nat" where
  "digit n i = n div 10 ^ i mod 10"

text \<open>
  The offset of a symbol at a recursion depth, as the specification words it: a table at
  depth \<open>0\<close>, and \<open>offset(a, z) = offset(a, z - 1) + 2 * offset((a mod 6) + 1, z - 1)\<close>
  above. The offset of an address is the sum of \<open>offset(digit i, i)\<close> over the nonzero
  digits (rows and columns summed separately).
\<close>

definition offset_table :: "(int \<times> int) list" where
  "offset_table = [(0, 0), (0, 8), (-7, 4), (-7, -4), (0, -8), (7, -4), (7, 4)]"

fun offset :: "nat \<Rightarrow> nat \<Rightarrow> int \<times> int" where
  "offset a 0 = offset_table ! a"
| "offset a (Suc z) = vec_add (offset a z) (vec_scale 2 (offset (a mod 6 + 1) z))"

definition addressToOffset :: "nat \<Rightarrow> int \<times> int" where
  "addressToOffset a =
     (let ds = int2intvec a in
      ((\<Sum>i \<leftarrow> [0..<length ds]. if ds ! i \<noteq> 0 then fst (offset (ds ! i) i) else 0),
       (\<Sum>i \<leftarrow> [0..<length ds]. if ds ! i \<noteq> 0 then snd (offset (ds ! i) i) else 0)))"

text \<open>A position is a legal index pair of a grid (negative indices count from the end).\<close>

definition in_bounds :: "grid \<Rightarrow> int \<times> int \<Rightarrow> bool" where
  "in_bounds g p \<longleftrightarrow>
     - int (rows g) \<le> fst p \<and> fst p < int (rows g) \<and>
     - int (cols g) \<le> snd p \<and> snd p < int (cols g)"

text \<open>
  Component \<open>k\<close> of the frequency vector of an address: the hyperpel value at
  \<^verbatim>\<open>multiply(a, k)\<close>.
\<close>

definition frequency :: "nat \<Rightarrow> grid \<Rightarrow> nat \<Rightarrow> nat \<Rightarrow> complex result" where
  "frequency fuel g a k = use_num ValueError (spiral_mult fuel a k 0) (\<lambda>m. Some (sa_value g m))"





section \<open>Properties\<close>

subsection \<open>Results and digits\<close>

lemma use_num_Inr:
  "use_num exn m k = Some (Inr r) \<longleftrightarrow> (\<exists>v. m = Some (Inr v) \<and> k v = Some (Inr r))"
  by (auto simp: use_num_def split: option.splits sum.splits)


lemma int2intvec_loop_0: "int2intvec_loop 0 = []"
  by (simp add: int2intvec_loop.simps)

lemma int2intvec_digit: "a < 10 \<Longrightarrow> int2intvec a = [a]"
  by (simp add: int2intvec_def int2intvec_loop_0)



lemma digit_cases:
  assumes "(a::nat) \<le> 6"
  obtains "a = 0" | "a = 1" | "a = 2" | "a = 3" | "a = 4" | "a = 5" | "a = 6"
  using assms by linarith

subsection \<open>The two tables\<close>

lemma addition_table_get:
  "a \<le> 6 \<Longrightarrow> b \<le> 6 \<Longrightarrow> table_get addition_table a b = Inr (addition_table ! a ! b)"
  by (erule digit_cases) (simp_all add: table_get_def addition_table_def)

lemma multiplication_table_get:
  "a \<le> 6 \<Longrightarrow> b \<le> 6 \<Longrightarrow>
   table_get multiplication_table a b = Inr (multiplication_table ! a ! b)"
  by (erule digit_cases) (simp_all add: table_get_def multiplication_table_def)

lemma addition_table_sym:
  "a \<le> 6 \<Longrightarrow> b \<le> 6 \<Longrightarrow> addition_table ! a ! b = addition_table ! b ! a"
  by (erule digit_cases; erule digit_cases) (simp_all add: addition_table_def)

lemma multiplication_table_sym:
  "a \<le> 6 \<Longrightarrow> b \<le> 6 \<Longrightarrow> multiplication_table ! a ! b = multiplication_table ! b ! a"
  by (erule digit_cases; erule digit_cases) (simp_all add: multiplication_table_def)

lemma multiplication_table_le:
  "a \<le> 6 \<Longrightarrow> b \<le> 6 \<Longrightarrow> multiplication_table ! a ! b \<le> 6"
  by (erule digit_cases; erule digit_cases) (simp_all add: multiplication_table_def)

lemma addition_table_zero_left: "b \<le> 6 \<Longrightarrow> addition_table ! 0 ! b = b"
  by (erule digit_cases) (simp_all add: addition_table_def)

lemma addition_table_zero_right: "a \<le> 6 \<Longrightarrow> addition_table ! a ! 0 = a"
  by (erule digit_cases) (simp_all add: addition_table_def)

subsection \<open>The recursion budget\<close>

text \<open>
  A result obtained with some budget is obtained with every larger one: the budget only
  decides whether the recursion of \<^verbatim>\<open>spiral_add\<close> is followed to its end.
\<close>

lemma spiral_add_loop_mono:
  "spiral_add_loop add as bs i res = Some r \<Longrightarrow>
   (\<And>x y r. add x y = Some r \<Longrightarrow> add' x y = Some r) \<Longrightarrow>
   spiral_add_loop add' as bs i res = Some r"
proof (induction add as bs i res rule: spiral_add_loop.induct)
  case (1 add bs i res)
  then show ?case by simp
next
  case (2 add a as i res)
  then show ?case by simp
next
  case (3 add a b bs i res)
  from "3.prems"(1) obtain t where t: "add a b = Some t"
    by (auto simp: use_num_def split: option.splits)
  with "3.prems"(1) "3.prems"(2) [OF t] show ?case by (simp add: use_num_def)
next
  case (4 add a a' as b bs i res)
  note mono = "4.prems"(2)
  from "4.prems"(1) obtain t where t: "add a b = Some t"
    by (auto simp: use_num_def split: option.splits)
  show ?case
  proof (cases t)
    case (Inl e)
    with "4.prems"(1) t mono [OF t] show ?thesis by (simp add: use_num_def)
  next
    case (Inr temp)
    from "4.prems"(1) t Inr obtain c where c: "add a' ((temp - temp mod 10) div 10) = Some c"
      by (auto simp: use_num_def split: option.splits)
    show ?thesis
    proof (cases c)
      case (Inl e)
      with "4.prems"(1) t \<open>t = Inr temp\<close> c mono [OF t] mono [OF c] show ?thesis
        by (simp add: use_num_def)
    next
      case (Inr carry_on)
      with "4.prems"(1) t \<open>t = Inr temp\<close> c have
        "spiral_add_loop add (carry_on # as) bs (Suc i) (res + temp mod 10 * 10 ^ i) = Some r"
        by (simp add: use_num_def)
      then have "spiral_add_loop add' (carry_on # as) bs (Suc i) (res + temp mod 10 * 10 ^ i) = Some r"
        using mono by (rule "4.IH")
      with t \<open>t = Inr temp\<close> c Inr mono [OF t] mono [OF c] show ?thesis
        by (simp add: use_num_def)
    qed
  qed
qed

lemma spiral_add_fuel_Suc:
  "spiral_add fuel a b m = Some r \<Longrightarrow> spiral_add (Suc fuel) a b m = Some r"
proof (induction fuel arbitrary: a b m r)
  case 0
  then show ?case by simp
next
  case (Suc fuel)
  define da where "da = (if length (int2intvec a) < length (int2intvec b)
    then resize (int2intvec a) (length (int2intvec b)) else int2intvec a)"
  define db where "db = (if length (int2intvec b) < length da
    then resize (int2intvec b) (length da) else int2intvec b)"
  define K :: "nat \<Rightarrow> nat result" where "K = (\<lambda>res. Some (Inr (if m \<noteq> 0 then res mod m else res)))"
  have unfold: "spiral_add (Suc n) a b m =
      (if list_ex (\<lambda>d. d < 0 \<or> 7 < d) (int2intvec a) \<or> list_ex (\<lambda>d. d < 0 \<or> 7 < d) (int2intvec b)
       then Some (Inl InvalidAddress)
       else if length (int2intvec a) = 1 \<and> length (int2intvec b) = 1
         then Some (table_get addition_table a b)
         else bind_r (spiral_add_loop (\<lambda>x y. spiral_add n x y 0) da db 0 0) K)" for n
    unfolding da_def db_def K_def by (subst spiral_add.simps) (simp only: Let_def)
  show ?case
  proof (cases "list_ex (\<lambda>d. d < 0 \<or> 7 < d) (int2intvec a) \<or> list_ex (\<lambda>d. d < 0 \<or> 7 < d) (int2intvec b)
      \<or> (length (int2intvec a) = 1 \<and> length (int2intvec b) = 1)")
    case True
    with Suc.prems show ?thesis unfolding unfold by (auto simp del: spiral_add.simps split: if_splits)
  next
    case False
    with Suc.prems have b: "bind_r (spiral_add_loop (\<lambda>x y. spiral_add fuel x y 0) da db 0 0) K = Some r"
      unfolding unfold by (auto simp del: spiral_add.simps split: if_splits)
    then obtain v where v: "spiral_add_loop (\<lambda>x y. spiral_add fuel x y 0) da db 0 0 = Some v"
      by (auto simp: bind_r_def split: option.splits)
    then have "spiral_add_loop (\<lambda>x y. spiral_add (Suc fuel) x y 0) da db 0 0 = Some v"
      by (rule spiral_add_loop_mono) (rule Suc.IH)
    with b v have "bind_r (spiral_add_loop (\<lambda>x y. spiral_add (Suc fuel) x y 0) da db 0 0) K = Some r"
      by simp
    with False show ?thesis unfolding unfold [of "Suc fuel"] by (auto simp del: spiral_add.simps)
  qed
qed

lemma spiral_add_fuel_mono:
  "spiral_add fuel a b m = Some r \<Longrightarrow> spiral_add (fuel + k) a b m = Some r"
  by (induction k) (simp_all add: spiral_add_fuel_Suc del: spiral_add.simps)


lemma spiral_mult_loop_mono:
  "spiral_mult_loop add dig_a dig_b ps m s = Some r \<Longrightarrow>
   (\<And>x y r. add x y = Some r \<Longrightarrow> add' x y = Some r) \<Longrightarrow>
   spiral_mult_loop add' dig_a dig_b ps m s = Some r"
proof (induction add dig_a dig_b ps m s rule: spiral_mult_loop.induct)
  case (1 add dig_a dig_b m sa_mult)
  then show ?case by simp
next
  case (2 add dig_a dig_b i j ps m sa_mult)
  note mono = "2.prems"(2)
  show ?case
  proof (cases "table_get multiplication_table (dig_a ! j) (dig_b ! i)")
    case (Inl e)
    with "2.prems"(1) show ?thesis by auto
  next
    case (Inr t)
    with "2.prems"(1) obtain u where u: "add sa_mult (t * 10 ^ (i + j)) = Some u"
      by (auto split: option.splits)
    show ?thesis
    proof (cases u)
      case (Inl e)
      with "2.prems"(1) \<open>table_get multiplication_table (dig_a ! j) (dig_b ! i) = Inr t\<close> u mono [OF u]
      show ?thesis by simp
    next
      case (Inr v)
      with "2.prems"(1) \<open>table_get multiplication_table (dig_a ! j) (dig_b ! i) = Inr t\<close> u
      have "spiral_mult_loop add dig_a dig_b ps m v = Some r" by simp
      then have "spiral_mult_loop add' dig_a dig_b ps m v = Some r"
        using \<open>table_get multiplication_table (dig_a ! j) (dig_b ! i) = Inr t\<close> u Inr mono
        by (intro "2.IH") simp_all
      with \<open>table_get multiplication_table (dig_a ! j) (dig_b ! i) = Inr t\<close> u Inr mono [OF u]
      show ?thesis by simp
    qed
  qed
qed

lemma spiral_mult_fuel_mono:
  assumes "spiral_mult fuel a b m = Some r"
  shows "spiral_mult (fuel + k) a b m = Some r"
proof (cases "list_ex (\<lambda>d. d < 0 \<or> 7 < d) (int2intvec a) \<or> list_ex (\<lambda>d. d < 0 \<or> 7 < d) (int2intvec b)")
  case True
  with assms show ?thesis by (simp add: spiral_mult_def)
next
  case False
  let ?ps = "[(i, j). i \<leftarrow> [0..<length (int2intvec b)], j \<leftarrow> [0..<length (int2intvec a)]]"
  from False assms have
    "spiral_mult_loop (\<lambda>x y. spiral_add fuel x y 0) (int2intvec a) (int2intvec b) ?ps m 0 = Some r"
    by (simp add: spiral_mult_def Let_def del: spiral_add.simps)
  then have
    "spiral_mult_loop (\<lambda>x y. spiral_add (fuel + k) x y 0) (int2intvec a) (int2intvec b) ?ps m 0 = Some r"
    by (rule spiral_mult_loop_mono) (rule spiral_add_fuel_mono)
  with False show ?thesis by (simp add: spiral_mult_def Let_def del: spiral_add.simps)
qed

subsection \<open>Single digits\<close>

lemma spiral_add_digits:
  "a \<le> 7 \<Longrightarrow> b \<le> 7 \<Longrightarrow> spiral_add (Suc fuel) a b m = Some (table_get addition_table a b)"
  by (simp add: int2intvec_digit)

lemma spiral_mult_digits:
  assumes "a \<le> 6" "b \<le> 6"
  shows "spiral_mult (Suc fuel) a b m =
    Some (Inr (if m \<noteq> 0 then multiplication_table ! a ! b mod m
               else multiplication_table ! a ! b))"
proof -
  have t: "multiplication_table ! a ! b \<le> 6" using assms by (rule multiplication_table_le)
  then have t7: "multiplication_table ! a ! b \<le> 7" by simp
  show ?thesis
    using assms t
    by (simp add: spiral_mult_def int2intvec_digit multiplication_table_get
        spiral_add_digits [OF _ t7] addition_table_get addition_table_zero_left)
qed

text \<open>
  C10. For single-digit symbols \<open>a\<close>, \<open>b\<close> in \<open>0..6\<close>, \<^verbatim>\<open>spiral_add(a, b)\<close> and
  \<^verbatim>\<open>spiral_mult(a, b)\<close> are the entries of the two tables, and both tables are symmetric:
  single-digit spiral addition and multiplication are commutative.
\<close>

theorem single_digit_commutative:
  assumes "a \<le> 6" and "b \<le> 6"
  shows "spiral_add (Suc fuel) a b 0 = Some (Inr (addition_table ! a ! b)) \<and>
         spiral_add (Suc fuel) b a 0 = spiral_add (Suc fuel) a b 0 \<and>
         spiral_mult (Suc fuel) a b 0 = Some (Inr (multiplication_table ! a ! b)) \<and>
         spiral_mult (Suc fuel) b a 0 = spiral_mult (Suc fuel) a b 0"
proof -
  have a7: "a \<le> 7" and b7: "b \<le> 7" using assms by simp_all
  have "spiral_add (Suc fuel) a b 0 = Some (Inr (addition_table ! a ! b))"
    by (simp only: spiral_add_digits [OF a7 b7] addition_table_get [OF assms])
  moreover have "spiral_add (Suc fuel) b a 0 = Some (Inr (addition_table ! a ! b))"
    by (simp only: spiral_add_digits [OF b7 a7] addition_table_get [OF assms(2) assms(1)]
        addition_table_sym [OF assms(2) assms(1)])
  moreover have "spiral_mult (Suc fuel) a b 0 = Some (Inr (multiplication_table ! a ! b))"
    using spiral_mult_digits [OF assms, of fuel 0] by simp
  moreover have "spiral_mult (Suc fuel) b a 0 = Some (Inr (multiplication_table ! a ! b))"
    using spiral_mult_digits [OF assms(2) assms(1), of fuel 0]
      multiplication_table_sym [OF assms(2) assms(1)] by simp
  ultimately show ?thesis by simp
qed

theorem single_digit_commutative_witness:
  "(1::nat) \<le> 6 \<and> (6::nat) \<le> 6 \<and>
   spiral_add (Suc 0) 1 6 0 = Some (Inr 64) \<and> spiral_add (Suc 0) 6 1 0 = Some (Inr 64) \<and>
   spiral_mult (Suc 0) 2 6 0 = Some (Inr 1) \<and> spiral_mult (Suc 0) 6 2 0 = Some (Inr 1)"
  using single_digit_commutative [of 1 6 0] single_digit_commutative [of 2 6 0]
  by (simp add: addition_table_def multiplication_table_def)

subsection \<open>The validity guard\<close>

text \<open>
  C2. A digit outside \<open>0..6\<close> is to make \<^verbatim>\<open>spiral_add\<close> and \<^verbatim>\<open>spiral_mult\<close> report an
  invalid address. The guard of both functions tests \<^verbatim>\<open>dig > 7\<close>: the digits 8 and 9 are
  reported, the digit 7 passes the guard and the table lookup \<^verbatim>\<open>table[7][...]\<close> raises
  \<^verbatim>\<open>IndexError\<close>. (\<^verbatim>\<open>sa2hex\<close> tests \<^verbatim>\<open>> 6\<close>.)
\<close>

theorem digit_seven_passes_guard:
  "spiral_add (Suc fuel) 7 0 m = Some (Inl IndexError) \<and>
   spiral_mult fuel 7 1 m = Some (Inl IndexError) \<and>
   spiral_add (Suc fuel) 8 0 m = Some (Inl InvalidAddress) \<and>
   spiral_mult fuel 8 1 m = Some (Inl InvalidAddress)"
  by (simp add: spiral_mult_def int2intvec_digit table_get_def addition_table_def
      multiplication_table_def)

subsection \<open>The most significant position of an addition\<close>






subsection \<open>Base conversion\<close>

lemma int2intvec_loop_rec:
  "a \<noteq> 0 \<Longrightarrow> int2intvec_loop a = (a mod 10) # int2intvec_loop (a div 10)"
  by (subst int2intvec_loop.simps) (simp add: minus_mod_eq_mult_div)

lemma int2intvec_alt: "int2intvec a = (a mod 10) # int2intvec_loop (a div 10)"
  by (simp add: int2intvec_def minus_mod_eq_mult_div)

lemma int_of_digits_loop: "int_of_digits (int2intvec_loop a) = a"
proof (induction a rule: less_induct)
  case (less a)
  show ?case
  proof (cases "a = 0")
    case True
    then show ?thesis by (simp add: int2intvec_loop_0)
  next
    case False
    then have "a div 10 < a" by simp
    from less.IH [OF this] False show ?thesis
      by (simp add: int2intvec_loop_rec)
  qed
qed

lemma int_of_digits_int2intvec: "int_of_digits (int2intvec a) = a"
  by (simp add: int2intvec_alt int_of_digits_loop)

lemma int2intvec_loop_last: "a \<noteq> 0 \<Longrightarrow> last (int2intvec_loop a) \<noteq> 0 \<and> int2intvec_loop a \<noteq> []"
proof (induction a rule: less_induct)
  case (less a)
  show ?case
  proof (cases "a div 10 = 0")
    case True
    with less.prems show ?thesis
      by (simp add: int2intvec_loop_rec int2intvec_loop_0)
  next
    case False
    have "a div 10 < a" using less.prems by simp
    from less.IH [OF this False] less.prems show ?thesis
      by (simp add: int2intvec_loop_rec)
  qed
qed










lemma zip_ALPHABET10:
  "zip ALPHABET10 [0..<10] =
    [(CHR ''0'', 0), (CHR ''1'', 1), (CHR ''2'', 2), (CHR ''3'', 3), (CHR ''4'', 4),
     (CHR ''5'', 5), (CHR ''6'', 6), (CHR ''7'', 7), (CHR ''8'', 8), (CHR ''9'', 9)]"
  by (simp add: ALPHABET10_def upt_conv_Cons)





lemma int2intvec_length_1: "length (int2intvec n) = 1 \<longleftrightarrow> n < 10"
proof
  assume "length (int2intvec n) = 1"
  then have l: "int2intvec_loop (n div 10) = []" by (simp add: int2intvec_alt)
  have "n div 10 = 0"
  proof (rule ccontr)
    assume "n div 10 \<noteq> 0"
    from int2intvec_loop_last [OF this] l show False by simp
  qed
  then show "n < 10" by simp
next
  assume "n < 10"
  then show "length (int2intvec n) = 1" by (simp add: int2intvec_digit)
qed

lemma ALPHABET10_zero: "n < 10 \<Longrightarrow> ALPHABET10 ! n = CHR ''0'' \<longleftrightarrow> n = 0"
proof -
  assume "n < 10"
  then have "n \<le> 6 \<or> n = 7 \<or> n = 8 \<or> n = 9" by linarith
  then show ?thesis
    by (elim disjE digit_cases) (simp_all add: ALPHABET10_def)
qed




lemma int2intvec_16: "int2intvec 16 = [6, 1]"
  by (simp add: int2intvec_def int2intvec_loop.simps)



subsection \<open>Decimal digits\<close>

lemma int2intvec_loop_nth:
  "i < length (int2intvec_loop n) \<Longrightarrow> int2intvec_loop n ! i = digit n i"
proof (induction n arbitrary: i rule: less_induct)
  case (less n)
  show ?case
  proof (cases "n = 0")
    case True
    with less.prems show ?thesis by (simp add: int2intvec_loop_0)
  next
    case False
    then have rec: "int2intvec_loop n = (n mod 10) # int2intvec_loop (n div 10)"
      by (rule int2intvec_loop_rec)
    show ?thesis
    proof (cases i)
      case 0
      then show ?thesis by (simp add: rec digit_def)
    next
      case (Suc k)
      have "n div 10 < n" using False by simp
      moreover have "k < length (int2intvec_loop (n div 10))" using less.prems Suc by (simp add: rec)
      ultimately have "int2intvec_loop (n div 10) ! k = digit (n div 10) k" by (rule less.IH)
      then show ?thesis by (simp add: rec Suc digit_def div_mult2_eq)
    qed
  qed
qed

lemma int2intvec_loop_bound: "n < 10 ^ length (int2intvec_loop n)"
proof (induction n rule: less_induct)
  case (less n)
  show ?case
  proof (cases "n = 0")
    case True
    then show ?thesis by simp
  next
    case False
    then have rec: "int2intvec_loop n = (n mod 10) # int2intvec_loop (n div 10)"
      by (rule int2intvec_loop_rec)
    have "n div 10 < n" using False by simp
    then have "n div 10 < 10 ^ length (int2intvec_loop (n div 10))" by (rule less.IH)
    then show ?thesis by (simp add: rec)
  qed
qed

lemma int2intvec_nth: "i < length (int2intvec n) \<Longrightarrow> int2intvec n ! i = digit n i"
proof (cases i)
  case 0
  then show ?thesis by (simp add: int2intvec_alt digit_def)
next
  case (Suc k)
  assume "i < length (int2intvec n)"
  with Suc have "k < length (int2intvec_loop (n div 10))" by (simp add: int2intvec_alt)
  then have "int2intvec_loop (n div 10) ! k = digit (n div 10) k" by (rule int2intvec_loop_nth)
  then show ?thesis by (simp add: int2intvec_alt Suc digit_def div_mult2_eq)
qed

lemma int2intvec_bound: "n < 10 ^ length (int2intvec n)"
proof -
  have "n div 10 < 10 ^ length (int2intvec_loop (n div 10))" by (rule int2intvec_loop_bound)
  then show ?thesis by (simp add: int2intvec_alt)
qed

lemma digit_beyond: "length (int2intvec n) \<le> i \<Longrightarrow> digit n i = 0"
proof -
  assume "length (int2intvec n) \<le> i"
  then have "(10::nat) ^ length (int2intvec n) \<le> 10 ^ i" by (simp add: power_increasing)
  with int2intvec_bound [of n] have "n < 10 ^ i" by linarith
  then show ?thesis by (simp add: digit_def)
qed

lemma valid_address_digit: "valid_address n \<longleftrightarrow> (\<forall>i. digit n i \<le> 6)"
proof
  assume v: "valid_address n"
  show "\<forall>i. digit n i \<le> 6"
  proof
    fix i
    show "digit n i \<le> 6"
    proof (cases "i < length (int2intvec n)")
      case True
      then have "int2intvec n ! i \<in> set (int2intvec n)" by simp
      with v have "int2intvec n ! i \<le> 6" by (simp add: valid_address_def list_all_iff)
      with True show ?thesis by (simp add: int2intvec_nth)
    next
      case False
      then show ?thesis by (simp add: digit_beyond)
    qed
  qed
next
  assume d: "\<forall>i. digit n i \<le> 6"
  show "valid_address n"
    unfolding valid_address_def list_all_iff
  proof
    fix x assume "x \<in> set (int2intvec n)"
    then obtain i where "i < length (int2intvec n)" "int2intvec n ! i = x"
      by (auto simp: in_set_conv_nth)
    with d show "x \<le> 6" by (auto simp: int2intvec_nth)
  qed
qed

lemma resize_length: "length ds \<le> L \<Longrightarrow> length (resize ds L) = L"
  by (simp add: resize_def)

lemma resize_int2intvec_nth:
  "length (int2intvec n) \<le> L \<Longrightarrow> i < L \<Longrightarrow> resize (int2intvec n) L ! i = digit n i"
  by (simp add: resize_def nth_append int2intvec_nth digit_beyond)

lemma int_of_digits_append_zeros: "int_of_digits (ds @ replicate k 0) = int_of_digits ds"
  by (induction ds) (simp_all, induction k, simp_all)

lemma int_of_digits_resize: "int_of_digits (resize ds L) = int_of_digits ds"
  by (simp add: resize_def int_of_digits_append_zeros)

subsection \<open>Addition without carries\<close>

lemma addition_table_no_carry:
  "a \<le> 6 \<Longrightarrow> b \<le> 6 \<Longrightarrow> a = 0 \<or> b = 0 \<Longrightarrow> addition_table ! a ! b = a + b"
  by (auto simp: addition_table_zero_left addition_table_zero_right)

lemma spiral_add_no_carry_digit:
  assumes "a \<le> 6" "b \<le> 6" "a = 0 \<or> b = 0"
  shows "spiral_add (Suc fuel) a b 0 = Some (Inr (a + b))"
proof -
  have "a \<le> 7" "b \<le> 7" using assms by simp_all
  then have "spiral_add (Suc fuel) a b 0 = Some (table_get addition_table a b)"
    by (rule spiral_add_digits)
  then show ?thesis
    using assms by (simp only: addition_table_get addition_table_no_carry)
qed

lemma spiral_add_loop_no_carry:
  assumes "list_all2 (\<lambda>a b. a \<le> 6 \<and> b \<le> 6 \<and> (a = 0 \<or> b = 0)) as bs"
  shows "spiral_add_loop (\<lambda>x y. spiral_add (Suc fuel) x y 0) as bs i res
         = Some (Inr (res + (int_of_digits as + int_of_digits bs) * 10 ^ i))"
  using assms
proof (induction as arbitrary: bs i res)
  case Nil
  then show ?case by simp
next
  case (Cons a as)
  from Cons.prems obtain b bs' where bs: "bs = b # bs'"
    and ab: "a \<le> 6" "b \<le> 6" "a = 0 \<or> b = 0"
    and rest: "list_all2 (\<lambda>a b. a \<le> 6 \<and> b \<le> 6 \<and> (a = 0 \<or> b = 0)) as bs'"
    by (auto simp: list_all2_Cons1)
  have t: "spiral_add (Suc fuel) a b 0 = Some (Inr (a + b))"
    using ab by (rule spiral_add_no_carry_digit)
  show ?case
  proof (cases as)
    case Nil
    with rest have "bs' = []" by simp
    with Nil bs t show ?thesis by (simp add: use_num_def)
  next
    case (Cons a' as')
    from rest Cons have a': "a' \<le> 6" by (auto simp: list_all2_Cons1)
    have small: "a + b \<le> 6" using ab by auto
    then have m: "(a + b) mod 10 = a + b" and c: "(a + b - (a + b) mod 10) div 10 = 0" by simp_all
    have c': "spiral_add (Suc fuel) a' 0 0 = Some (Inr a')"
      using spiral_add_no_carry_digit [of a' 0 fuel] a' by simp
    have "spiral_add_loop (\<lambda>x y. spiral_add (Suc fuel) x y 0) (a # a' # as') (b # bs') i res
        = spiral_add_loop (\<lambda>x y. spiral_add (Suc fuel) x y 0) (a' # as') bs' (Suc i)
            (res + (a + b) * 10 ^ i)"
      by (simp add: t use_num_def m c c' del: spiral_add.simps)
    also have "\<dots> = Some (Inr (res + (a + b) * 10 ^ i
        + (int_of_digits (a' # as') + int_of_digits bs') * 10 ^ Suc i))"
      using Cons.IH [of bs' "Suc i" "res + (a + b) * 10 ^ i"] rest Cons by simp
    finally show ?thesis using bs Cons by (simp add: algebra_simps)
  qed
qed

lemma spiral_add_no_carry:
  assumes x: "\<forall>i. digit x i \<le> 6" and y: "\<forall>i. digit y i \<le> 6"
    and xy: "\<forall>i. digit x i = 0 \<or> digit y i = 0"
  shows "spiral_add (Suc (Suc fuel)) x y 0 = Some (Inr (x + y))"
proof -
  let ?da = "int2intvec x" and ?db = "int2intvec y"
  have vx: "valid_address x" and vy: "valid_address y"
    using x y by (simp_all add: valid_address_digit)
  have guard: "\<not> (list_ex (\<lambda>d. d < 0 \<or> 7 < d) ?da \<or> list_ex (\<lambda>d. d < 0 \<or> 7 < d) ?db)"
    using vx vy by (auto simp: valid_address_def list_all_iff list_ex_iff)
  show ?thesis
  proof (cases "length ?da = 1 \<and> length ?db = 1")
    case True
    then have "x < 10" "y < 10" using int2intvec_length_1 by auto
    then have "digit x 0 = x" "digit y 0 = y" by (simp_all add: digit_def)
    with x y xy have "x \<le> 6" "y \<le> 6" "x = 0 \<or> y = 0" by metis+
    then show ?thesis by (rule spiral_add_no_carry_digit)
  next
    case False
    define L where "L = max (length ?da) (length ?db)"
    define da' where "da' = (if length ?da < length ?db then resize ?da (length ?db) else ?da)"
    define db' where "db' = (if length ?db < length da' then resize ?db (length da') else ?db)"
    have la: "length da' = L" by (simp add: da'_def L_def resize_def)
    have lb: "length db' = L" using la by (auto simp: db'_def L_def resize_def)
    have na: "da' ! i = digit x i" if "i < L" for i
    proof (cases "length ?da < length ?db")
      case True
      then show ?thesis using that by (simp add: da'_def L_def resize_int2intvec_nth)
    next
      case False
      then show ?thesis using that by (simp add: da'_def L_def int2intvec_nth)
    qed
    have nb: "db' ! i = digit y i" if "i < L" for i
    proof (cases "length ?db < length da'")
      case True
      then show ?thesis using that la by (simp add: db'_def resize_int2intvec_nth)
    next
      case False
      then show ?thesis using that la lb by (simp add: db'_def int2intvec_nth)
    qed
    have va: "int_of_digits da' = x"
      by (simp add: da'_def int_of_digits_resize int_of_digits_int2intvec)
    have vb: "int_of_digits db' = y"
      by (simp add: db'_def int_of_digits_resize int_of_digits_int2intvec)
    have "list_all2 (\<lambda>a b. a \<le> 6 \<and> b \<le> 6 \<and> (a = 0 \<or> b = 0)) da' db'"
      using x y xy by (simp add: list_all2_conv_all_nth la lb na nb)
    then have "spiral_add_loop (\<lambda>x y. spiral_add (Suc fuel) x y 0) da' db' 0 0
        = Some (Inr (0 + (int_of_digits da' + int_of_digits db') * 10 ^ 0))"
      by (rule spiral_add_loop_no_carry)
    then have "spiral_add_loop (\<lambda>x y. spiral_add (Suc fuel) x y 0) da' db' 0 0 = Some (Inr (x + y))"
      by (simp add: va vb)
    moreover have "spiral_add (Suc (Suc fuel)) x y 0
        = bind_r (spiral_add_loop (\<lambda>x y. spiral_add (Suc fuel) x y 0) da' db' 0 0)
            (\<lambda>res. Some (Inr res))"
      using False guard unfolding da'_def db'_def
      by (subst spiral_add.simps)
        (auto simp add: Let_def simp del: spiral_add.simps spiral_add_loop.simps)
    ultimately show ?thesis by (simp add: bind_r_def del: spiral_add.simps)
  qed
qed

subsection \<open>Multiplication by a single digit\<close>

lemma int_of_digits_append:
  "int_of_digits (xs @ ys) = int_of_digits xs + 10 ^ length xs * int_of_digits ys"
  by (induction xs) (simp_all add: algebra_simps)

lemma int_of_digits_bound:
  "\<forall>d \<in> set xs. d < 10 \<Longrightarrow> int_of_digits xs < 10 ^ length xs"
  by (induction xs) auto

lemma digit_int_of_digits:
  "\<forall>d \<in> set xs. d < 10 \<Longrightarrow> digit (int_of_digits xs) i = (if i < length xs then xs ! i else 0)"
proof (induction xs arbitrary: i)
  case Nil
  then show ?case by (simp add: digit_def)
next
  case (Cons x xs)
  then have x: "x < 10" and xs: "\<forall>d \<in> set xs. d < 10" by simp_all
  show ?case
  proof (cases i)
    case 0
    with x show ?thesis by (simp add: digit_def)
  next
    case (Suc k)
    have "(x + 10 * int_of_digits xs) div (10 * 10 ^ k) = int_of_digits xs div 10 ^ k"
      using x by (simp add: div_mult2_eq)
    then have "digit (int_of_digits (x # xs)) (Suc k) = digit (int_of_digits xs) k"
      by (simp add: digit_def)
    with Cons.IH [OF xs, of k] Suc show ?thesis by simp
  qed
qed

lemma int_of_digits_replicate_0: "int_of_digits (replicate j 0) = 0"
  by (induction j) simp_all

lemma digit_shifted:
  assumes "c < 10"
  shows "digit (c * 10 ^ j) i = (if i = j then c else 0)"
proof -
  have v: "int_of_digits (replicate j 0 @ [c]) = c * 10 ^ j"
    by (simp add: int_of_digits_append int_of_digits_replicate_0)
  have "\<forall>d \<in> set (replicate j 0 @ [c]). d < 10" using assms by auto
  from digit_int_of_digits [OF this, of i] show ?thesis
    unfolding v by (auto simp: nth_append)
qed

lemma multiplication_table_one: "d \<le> 6 \<Longrightarrow> multiplication_table ! d ! 1 = d"
  by (erule digit_cases) (simp_all add: multiplication_table_def)

lemma multiplication_table_zero: "d \<le> 6 \<Longrightarrow> multiplication_table ! d ! 0 = 0"
  by (erule digit_cases) (simp_all add: multiplication_table_def)

lemma spiral_mult_loop_digit:
  assumes da: "\<forall>d \<in> set da. d \<le> 6" and b: "b \<le> 6"
    and j: "j \<le> length da"
    and s: "s = int_of_digits (take j (map (\<lambda>d. multiplication_table ! d ! b) da))"
  shows "spiral_mult_loop (\<lambda>x y. spiral_add (Suc (Suc fuel)) x y 0) da [b]
           (map (Pair 0) [j..<length da]) 0 s
         = Some (Inr (int_of_digits (map (\<lambda>d. multiplication_table ! d ! b) da)))"
  using j s
proof (induction "length da - j" arbitrary: j s)
  case 0
  then show ?case by simp
next
  case (Suc n)
  let ?ms = "map (\<lambda>d. multiplication_table ! d ! b) da"
  from Suc.hyps(2) have jl: "j < length da" by simp
  then have dj: "da ! j \<le> 6" using da by simp
  have ms6: "\<forall>d \<in> set ?ms. d \<le> 6" using da b by (auto intro: multiplication_table_le)
  have ms10: "\<forall>d \<in> set (take j ?ms). d < 10"
  proof
    fix d assume "d \<in> set (take j ?ms)"
    then have "d \<in> set ?ms" by (rule in_set_takeD)
    with ms6 have "d \<le> 6" by blast
    then show "d < 10" by simp
  qed
  have mj: "?ms ! j \<le> 6" using jl dj b by (simp add: multiplication_table_le)
  have nth: "?ms ! j = multiplication_table ! (da ! j) ! b" using jl by simp
  have tg: "table_get multiplication_table (da ! j) b = Inr (multiplication_table ! (da ! j) ! b)"
    using dj b by (rule multiplication_table_get)
  have ds: "digit s i = (if i < j then ?ms ! i else 0)" for i
    using digit_int_of_digits [OF ms10, of i] jl by (simp add: Suc.prems(2))
  have dt: "digit (?ms ! j * 10 ^ j) i = (if i = j then ?ms ! j else 0)" for i
    using mj by (intro digit_shifted) simp
  have s6: "\<forall>i. digit s i \<le> 6"
  proof
    fix i show "digit s i \<le> 6"
    proof (cases "i < j")
      case True
      then have "?ms ! i \<in> set ?ms" using jl by simp
      with ms6 True show ?thesis by (simp only: ds if_True)
    next
      case False
      then show ?thesis by (simp only: ds if_False)
    qed
  qed
  have t6: "\<forall>i. digit (?ms ! j * 10 ^ j) i \<le> 6" using mj by (simp add: dt)
  have disj: "\<forall>i. digit s i = 0 \<or> digit (?ms ! j * 10 ^ j) i = 0" by (simp add: ds dt)
  have add: "spiral_add (Suc (Suc fuel)) s (?ms ! j * 10 ^ j) 0 = Some (Inr (s + ?ms ! j * 10 ^ j))"
    using s6 t6 disj by (rule spiral_add_no_carry)
  have next_s: "s + ?ms ! j * 10 ^ j = int_of_digits (take (Suc j) ?ms)"
    using jl by (simp add: take_Suc_conv_app_nth int_of_digits_append Suc.prems(2))
  have "spiral_mult_loop (\<lambda>x y. spiral_add (Suc (Suc fuel)) x y 0) da [b]
           (map (Pair 0) [j..<length da]) 0 s
      = spiral_mult_loop (\<lambda>x y. spiral_add (Suc (Suc fuel)) x y 0) da [b]
           (map (Pair 0) [Suc j..<length da]) 0 (s + ?ms ! j * 10 ^ j)"
    using jl add unfolding nth by (simp add: upt_conv_Cons tg del: spiral_add.simps)
  also have "\<dots> = Some (Inr (int_of_digits ?ms))"
    using Suc.hyps(2) jl next_s by (intro Suc.hyps(1)) simp_all
  finally show ?case .
qed

lemma spiral_mult_digitwise:
  assumes "valid_address a" and "b \<le> 6"
  shows "spiral_mult (Suc (Suc fuel)) a b 0
         = Some (Inr (int_of_digits (map (\<lambda>d. multiplication_table ! d ! b) (int2intvec a))))"
proof -
  have da: "\<forall>d \<in> set (int2intvec a). d \<le> 6"
    using assms(1) by (simp add: valid_address_def list_all_iff)
  have guard: "\<not> list_ex (\<lambda>d. d < 0 \<or> 7 < d) (int2intvec a)"
    using da by (auto simp: list_ex_iff)
  have pairs: "[(i, j). i \<leftarrow> [0..<length [b]], j \<leftarrow> [0..<length (int2intvec a)]]
      = map (Pair 0) [0..<length (int2intvec a)]" by simp
  have b10: "b < 10" using assms(2) by simp
  have "spiral_mult (Suc (Suc fuel)) a b 0
      = spiral_mult_loop (\<lambda>x y. spiral_add (Suc (Suc fuel)) x y 0) (int2intvec a) [b]
          (map (Pair 0) [0..<length (int2intvec a)]) 0 0"
    unfolding spiral_mult_def int2intvec_digit [OF b10] Let_def pairs
    using guard assms(2) by (simp del: spiral_add.simps)
  also have "\<dots> = Some (Inr (int_of_digits (map (\<lambda>d. multiplication_table ! d ! b) (int2intvec a))))"
    using da assms(2) by (intro spiral_mult_loop_digit) simp_all
  finally show ?thesis .
qed

lemma spiral_mult_one: "valid_address a \<Longrightarrow> spiral_mult (Suc (Suc fuel)) a 1 0 = Some (Inr a)"
proof -
  assume v: "valid_address a"
  then have "map (\<lambda>d. multiplication_table ! d ! 1) (int2intvec a) = int2intvec a"
    by (intro map_idI) (auto simp: valid_address_def list_all_iff multiplication_table_one
        simp del: One_nat_def)
  with spiral_mult_digitwise [OF v, of 1 fuel] show ?thesis
    by (simp add: int_of_digits_int2intvec)
qed

lemma spiral_mult_zero: "valid_address a \<Longrightarrow> spiral_mult (Suc (Suc fuel)) a 0 0 = Some (Inr 0)"
proof -
  assume v: "valid_address a"
  then have "map (\<lambda>d. multiplication_table ! d ! 0) (int2intvec a)
      = replicate (length (int2intvec a)) 0"
    by (auto simp: map_replicate_const [symmetric] valid_address_def list_all_iff
        multiplication_table_zero)
  with spiral_mult_digitwise [OF v, of 0 fuel] show ?thesis
    by (simp add: int_of_digits_replicate_0)
qed

lemma spiral_mult_loop_zero_left:
  assumes db: "\<forall>d \<in> set db. d \<le> 6" and i: "i \<le> length db"
  shows "spiral_mult_loop (\<lambda>x y. spiral_add (Suc fuel) x y 0) [0] db
           (map (\<lambda>i. (i, 0)) [i..<length db]) 0 0 = Some (Inr 0)"
  using i
proof (induction "length db - i" arbitrary: i)
  case 0
  then show ?case by simp
next
  case (Suc n)
  then have il: "i < length db" by simp
  then have "db ! i \<le> 6" using db by simp
  then have tg: "table_get multiplication_table 0 (db ! i) = Inr 0"
    by (elim digit_cases) (simp_all add: table_get_def multiplication_table_def)
  have add: "spiral_add (Suc fuel) 0 0 0 = Some (Inr 0)"
    using spiral_add_no_carry_digit [of 0 0 fuel] by simp
  have "spiral_mult_loop (\<lambda>x y. spiral_add (Suc fuel) x y 0) [0] db
           (map (\<lambda>i. (i, 0)) [i..<length db]) 0 0
      = spiral_mult_loop (\<lambda>x y. spiral_add (Suc fuel) x y 0) [0] db
           (map (\<lambda>i. (i, 0)) [Suc i..<length db]) 0 0"
    using il by (simp add: upt_conv_Cons tg add del: spiral_add.simps)
  also have "\<dots> = Some (Inr 0)"
    using Suc.hyps(2) il by (intro Suc.hyps(1)) simp_all
  finally show ?case .
qed

lemma spiral_mult_zero_left:
  assumes "valid_address a"
  shows "spiral_mult (Suc fuel) 0 a 0 = Some (Inr 0)"
proof -
  have db: "\<forall>d \<in> set (int2intvec a). d \<le> 6"
    using assms by (simp add: valid_address_def list_all_iff)
  have guard: "\<not> list_ex (\<lambda>d. d < 0 \<or> 7 < d) (int2intvec a)"
    using db by (auto simp: list_ex_iff)
  have pairs: "[(i, j). i \<leftarrow> [0..<length (int2intvec a)], j \<leftarrow> [0..<length [0::nat]]]
      = map (\<lambda>i. (i, 0)) [0..<length (int2intvec a)]"
    by (simp add: concat_map_singleton)
  have z: "int2intvec 0 = [0]" by (simp add: int2intvec_digit)
  have "spiral_mult (Suc fuel) 0 a 0
      = spiral_mult_loop (\<lambda>x y. spiral_add (Suc fuel) x y 0) [0] (int2intvec a)
          (map (\<lambda>i. (i, 0)) [0..<length (int2intvec a)]) 0 0"
    unfolding spiral_mult_def z Let_def pairs
    using guard by (simp del: spiral_add.simps)
  also have "\<dots> = Some (Inr 0)"
    using db by (intro spiral_mult_loop_zero_left) simp_all
  finally show ?thesis .
qed

text \<open>
  C8. For every valid spiral address \<open>a\<close>, \<^verbatim>\<open>spiral_mult(a, 1)\<close> is \<open>a\<close> and
  \<^verbatim>\<open>spiral_mult(a, 0)\<close> is \<open>0\<close>; with the operands swapped, \<^verbatim>\<open>spiral_mult(0, a)\<close> is \<open>0\<close> as
  well. Two levels of recursion in \<^verbatim>\<open>spiral_add\<close> are enough.
\<close>

theorem multiplicative_identity_and_zero:
  assumes "valid_address a"
  shows "spiral_mult (Suc (Suc fuel)) a 1 0 = Some (Inr a) \<and>
         spiral_mult (Suc (Suc fuel)) a 0 0 = Some (Inr 0) \<and>
         spiral_mult (Suc (Suc fuel)) 0 a 0 = Some (Inr 0)"
  using assms by (simp only: spiral_mult_one spiral_mult_zero spiral_mult_zero_left simp_thms)

theorem multiplicative_identity_and_zero_witness:
  "valid_address 16 \<and>
   spiral_mult (Suc (Suc 0)) 16 1 0 = Some (Inr 16) \<and>
   spiral_mult (Suc (Suc 0)) 16 0 0 = Some (Inr 0) \<and>
   spiral_mult (Suc (Suc 0)) 0 16 0 = Some (Inr 0)"
proof -
  have v: "valid_address 16" by (simp add: valid_address_def int2intvec_16)
  from multiplicative_identity_and_zero [OF v, of 0] v show ?thesis by simp
qed

subsection \<open>Offsets of addresses\<close>

lemma sa2hex_aux_offset: "a \<le> 6 \<Longrightarrow> sa2hex_aux a z = Inr (offset a z)"
proof (induction z arbitrary: a)
  case 0
  then show ?case by (elim digit_cases) (simp_all add: offset_table_def)
next
  case (Suc z)
  have "a mod 6 + 1 \<le> 6"
  proof -
    have "a mod 6 < 6" by simp
    then show ?thesis by linarith
  qed
  with Suc show ?case by simp
qed

lemma int_str_digit: "d \<le> 6 \<Longrightarrow> int_str [ALPHABET10 ! d] = Inr d"
  by (elim digit_cases) (simp_all add: int_str_def zip_ALPHABET10, simp_all add: ALPHABET10_def)

lemma sum_list_upt_Suc_shift:
  fixes f :: "nat \<Rightarrow> int"
  shows "(\<Sum>i \<leftarrow> [0..<Suc n]. f i) = f 0 + (\<Sum>i \<leftarrow> [0..<n]. f (Suc i))"
proof -
  have "[0..<Suc n] = 0 # map Suc [0..<n]"
    by (simp add: upt_conv_Cons map_Suc_upt del: upt_Suc)
  then show ?thesis by (simp add: comp_def del: upt_Suc)
qed

lemma sa2hex_loop_sum:
  assumes "\<forall>d \<in> set ds. d \<le> 6"
  shows "sa2hex_loop (map (\<lambda>d. ALPHABET10 ! d) ds) i h =
    Inr (fst h + (\<Sum>k \<leftarrow> [0..<length ds]. if ds ! k \<noteq> 0 then fst (offset (ds ! k) (i + k)) else 0),
         snd h + (\<Sum>k \<leftarrow> [0..<length ds]. if ds ! k \<noteq> 0 then snd (offset (ds ! k) (i + k)) else 0))"
  using assms
proof (induction ds arbitrary: i h)
  case Nil
  then show ?case by simp
next
  case (Cons d ds)
  then have d: "d \<le> 6" and ds: "\<forall>d \<in> set ds. d \<le> 6" by simp_all
  have d10: "d < 10" using d by simp
  have chr: "ALPHABET10 ! d \<noteq> CHR ''0'' \<longleftrightarrow> d \<noteq> 0"
    using ALPHABET10_zero [OF d10] by simp
  note ih = Cons.IH [OF ds]
  have step: "sa2hex_loop (ALPHABET10 ! d # map (\<lambda>d. ALPHABET10 ! d) ds) i h =
      (if d \<noteq> 0 then sa2hex_loop (map (\<lambda>d. ALPHABET10 ! d) ds) (Suc i) (vec_add h (offset d i))
       else sa2hex_loop (map (\<lambda>d. ALPHABET10 ! d) ds) (Suc i) h)"
    using d chr by (simp add: int_str_digit sa2hex_aux_offset)
  show ?case
    unfolding list.map step
    by (simp add: ih sum_list_upt_Suc_shift vec_add_def del: upt_Suc cong: if_cong)
qed

lemma rev_str_nat: "rev (str_nat a) = map (\<lambda>d. ALPHABET10 ! d) (int2intvec a)"
  by (simp add: str_nat_def)

lemma sa2hex_addressToOffset:
  assumes "valid_address a"
  shows "sa2hex a = Inr (addressToOffset a)"
proof -
  have "\<forall>d \<in> set (int2intvec a). d \<le> 6"
    using assms by (simp add: valid_address_def list_all_iff)
  from sa2hex_loop_sum [OF this, of 0 "(0, 0)"] show ?thesis
    by (simp add: sa2hex_def rev_str_nat addressToOffset_def Let_def cong: if_cong)
qed



subsection \<open>Hyperpel values\<close>

lemma grid_get_in_bounds:
  assumes "in_bounds g p"
  shows "\<exists>r c. r < rows g \<and> c < cols g \<and> grid_get g (fst p) (snd p) = Inr (cell g r c)"
proof -
  let ?r = "nat (if fst p < 0 then fst p + int (rows g) else fst p)"
  let ?c = "nat (if snd p < 0 then snd p + int (cols g) else snd p)"
  have "?r < rows g" "?c < cols g" using assms by (auto simp: in_bounds_def)
  moreover have "grid_get g (fst p) (snd p) = Inr (cell g ?r ?c)"
    using assms by (simp add: grid_get_def in_bounds_def)
  ultimately show ?thesis by blast
qed


lemma sa_value_loop_constant:
  assumes "\<forall>p \<in> set ps. in_bounds g p" and "\<forall>r < rows g. \<forall>c < cols g. cell g r c = k"
  shows "sa_value_loop g ps val = Inr (val + of_nat (length ps) * k)"
  using assms(1)
proof (induction ps arbitrary: val)
  case Nil
  then show ?case by simp
next
  case (Cons p ps)
  then have "in_bounds g p" by simp
  from grid_get_in_bounds [OF this] assms(2) have "grid_get g (fst p) (snd p) = Inr k" by auto
  with Cons show ?case by (simp add: algebra_simps)
qed

lemma length_hyperpel_sa: "length hyperpel_sa = 56"
  by (simp add: hyperpel_sa_def hyperpel_def)

text \<open>
  On a grid of equal cells the mean over the footprint is their common value. This is a fact
  of exact arithmetic: the 56 floating point additions and the division of the source round,
  and their result need not equal the constant bit for bit.
\<close>

lemma sa_value_constant:
  assumes "sa2hex a = Inr center"
    and "\<forall>p \<in> set hyperpel_sa. in_bounds g (vec_add p center)"
    and "\<forall>r < rows g. \<forall>c < cols g. cell g r c = k"
  shows "sa_value g a = Inr k"
proof -
  have "\<forall>p \<in> set (map (\<lambda>p. vec_add p center) hyperpel_sa). in_bounds g p"
    using assms(2) by simp
  from sa_value_loop_constant [OF this assms(3), of 0]
  show ?thesis by (simp add: sa_value_def assms(1) length_hyperpel_sa)
qed


lemma hyperpel_sa_range:
  assumes "p \<in> set hyperpel_sa"
  shows "- 4 \<le> fst p \<and> fst p \<le> 4 \<and> - 4 \<le> snd p \<and> snd p \<le> 3"
proof -
  have "list_all (\<lambda>p. - 4 \<le> fst p \<and> fst p \<le> 4 \<and> - 4 \<le> snd p \<and> snd p \<le> 3) hyperpel_sa"
    by (simp add: hyperpel_sa_def hyperpel_def vec_add_def)
  with assms show ?thesis unfolding list_all_iff by blast
qed

lemma offset_bound:
  "d \<le> 6 \<Longrightarrow> \<bar>fst (offset d z)\<bar> \<le> 8 * 3 ^ z \<and> \<bar>snd (offset d z)\<bar> \<le> 8 * 3 ^ z"
proof (induction z arbitrary: d)
  case 0
  then show ?case by (elim digit_cases) (simp_all add: offset_table_def)
next
  case (Suc z)
  have "d mod 6 + 1 \<le> 6"
  proof -
    have "d mod 6 < 6" by simp
    then show ?thesis by linarith
  qed
  from Suc.IH [OF this] Suc.IH [OF Suc.prems] show ?case
    by (simp add: vec_add_def vec_scale_def) linarith
qed

lemma sum_list_geometric_bound:
  fixes f :: "nat \<Rightarrow> int"
  assumes "\<forall>i < n. \<bar>f i\<bar> \<le> 8 * 3 ^ i"
  shows "\<bar>\<Sum>i \<leftarrow> [0..<n]. f i\<bar> \<le> 4 * 3 ^ n"
  using assms
proof (induction n)
  case 0
  then show ?case by simp
next
  case (Suc n)
  then have "\<bar>\<Sum>i \<leftarrow> [0..<n]. f i\<bar> \<le> 4 * 3 ^ n" and "\<bar>f n\<bar> \<le> 8 * 3 ^ n" by simp_all
  then show ?case by simp
qed

lemma int2intvec_loop_length: "n < 10 ^ k \<Longrightarrow> length (int2intvec_loop n) \<le> k"
proof (induction k arbitrary: n)
  case 0
  then show ?case by (simp add: int2intvec_loop_0)
next
  case (Suc k)
  show ?case
  proof (cases "n = 0")
    case True
    then show ?thesis by (simp add: int2intvec_loop_0)
  next
    case False
    have "n div 10 < 10 ^ k" using Suc.prems by simp
    from Suc.IH [OF this] False show ?thesis by (simp add: int2intvec_loop_rec)
  qed
qed

lemma int2intvec_length_le: "n < 10 ^ Suc k \<Longrightarrow> length (int2intvec n) \<le> Suc k"
proof -
  assume "n < 10 ^ Suc k"
  then have "n div 10 < 10 ^ k" by simp
  from int2intvec_loop_length [OF this] show ?thesis by (simp add: int2intvec_alt)
qed

lemma addressToOffset_bound:
  assumes "valid_address a" and "a < 1000"
  shows "\<bar>fst (addressToOffset a)\<bar> \<le> 108 \<and> \<bar>snd (addressToOffset a)\<bar> \<le> 108"
proof -
  let ?ds = "int2intvec a"
  have "a < 10 ^ Suc 2" using assms(2) by simp
  then have len: "length ?ds \<le> 3" using int2intvec_length_le [of a 2] by simp
  have d: "?ds ! i \<le> 6" if "i < length ?ds" for i
    using assms(1) that by (simp add: valid_address_def list_all_length)
  have f: "\<forall>i < length ?ds. \<bar>if ?ds ! i \<noteq> 0 then fst (offset (?ds ! i) i) else 0\<bar> \<le> 8 * 3 ^ i"
    using d offset_bound by auto
  have s: "\<forall>i < length ?ds. \<bar>if ?ds ! i \<noteq> 0 then snd (offset (?ds ! i) i) else 0\<bar> \<le> 8 * 3 ^ i"
    using d offset_bound by auto
  have "(3::int) ^ length ?ds \<le> 3 ^ 3" using len by (intro power_increasing) simp_all
  then have p: "(4::int) * 3 ^ length ?ds \<le> 108" by simp
  from sum_list_geometric_bound [OF f] sum_list_geometric_bound [OF s] p
  show ?thesis by (simp add: addressToOffset_def Let_def)
qed

lemma footprint_in_bounds:
  assumes "valid_address a" and "a < 1000" and "113 \<le> rows g" and "113 \<le> cols g"
  shows "\<forall>p \<in> set hyperpel_sa. in_bounds g (vec_add p (addressToOffset a))"
proof
  fix p assume "p \<in> set hyperpel_sa"
  from hyperpel_sa_range [OF this] addressToOffset_bound [OF assms(1,2)] assms(3,4)
  show "in_bounds g (vec_add p (addressToOffset a))"
    unfolding in_bounds_def vec_add_def fst_conv snd_conv by linarith
qed

subsection \<open>Frequency vectors and the invariant\<close>

lemma frequency_Inr:
  "frequency fuel g a k = Some (Inr v) \<longleftrightarrow>
     (\<exists>m. spiral_mult fuel a k 0 = Some (Inr m) \<and> sa_value g m = Inr v)"
  by (auto simp: frequency_def use_num_Inr)

lemma omegaf_step:
  assumes "frequency fuel g sa i = Some (Inr v)" and "i - 1 < length om"
  shows "omegaf_loop fuel g sa (i # is) om = omegaf_loop fuel g sa is (om[i - 1 := v])"
proof -
  from assms(1) obtain m where "spiral_mult fuel sa i 0 = Some (Inr m)" "sa_value g m = Inr v"
    by (auto simp: frequency_Inr)
  with assms(2) show ?thesis by (simp add: use_num_def)
qed

lemma upt_1_7: "[1..<7] = [1, 2, 3, 4, 5, 6::nat]"
  by (simp add: upt_conv_Cons)

lemma omegaf_frequency:
  assumes "\<forall>k \<in> {1..6}. frequency fuel g a k = Some (Inr (w k))"
  shows "omegaf fuel g a = Some (Inr [w 1, w 2, w 3, w 4, w 5, w 6])"
proof -
  have f: "frequency fuel g a 1 = Some (Inr (w 1))" "frequency fuel g a 2 = Some (Inr (w 2))"
    "frequency fuel g a 3 = Some (Inr (w 3))" "frequency fuel g a 4 = Some (Inr (w 4))"
    "frequency fuel g a 5 = Some (Inr (w 5))" "frequency fuel g a 6 = Some (Inr (w 6))"
    using assms by simp_all
  have "omegaf fuel g a = omegaf_loop fuel g a [1, 2, 3, 4, 5, 6] [0, 0, 0, 0, 0, 0]"
    by (simp add: omegaf_def upt_1_7 numeral_eq_Suc)
  also have "\<dots> = omegaf_loop fuel g a [2, 3, 4, 5, 6] [w 1, 0, 0, 0, 0, 0]"
    by (subst omegaf_step [OF f(1)]) simp_all
  also have "\<dots> = omegaf_loop fuel g a [3, 4, 5, 6] [w 1, w 2, 0, 0, 0, 0]"
    by (subst omegaf_step [OF f(2)]) simp_all
  also have "\<dots> = omegaf_loop fuel g a [4, 5, 6] [w 1, w 2, w 3, 0, 0, 0]"
    by (subst omegaf_step [OF f(3)]) (simp_all add: numeral_eq_Suc)
  also have "\<dots> = omegaf_loop fuel g a [5, 6] [w 1, w 2, w 3, w 4, 0, 0]"
    by (subst omegaf_step [OF f(4)]) (simp_all add: numeral_eq_Suc)
  also have "\<dots> = omegaf_loop fuel g a [6] [w 1, w 2, w 3, w 4, w 5, 0]"
    by (subst omegaf_step [OF f(5)]) (simp_all add: numeral_eq_Suc)
  also have "\<dots> = omegaf_loop fuel g a [] [w 1, w 2, w 3, w 4, w 5, w 6]"
    by (subst omegaf_step [OF f(6)]) (simp_all add: numeral_eq_Suc)
  finally show ?thesis by simp
qed

lemma sum_1_6:
  fixes f :: "nat \<Rightarrow> complex"
  shows "(\<Sum>k = 1..6. f k) = f 1 + f 2 + f 3 + f 4 + f 5 + f 6"
proof -
  have "{1..6::nat} = set [1..<7]" by auto
  moreover have "distinct [1..<7::nat]" by simp
  ultimately have "(\<Sum>k = 1..6. f k) = (\<Sum>k \<leftarrow> [1..<7]. f k)"
    by (simp only: sum.distinct_set_conv_list)
  then show ?thesis unfolding upt_1_7 by (simp add: add.assoc)
qed

lemma invariant_frequency:
  assumes "\<forall>k \<in> {1..6}. frequency fuel g a1 k = Some (Inr (w1 k))"
    and "\<forall>k \<in> {1..6}. frequency fuel g a2 k = Some (Inr (w2 k))"
    and "\<forall>k \<in> {1..6}. frequency fuel g a3 k = Some (Inr (w3 k))"
  shows "invariant fuel g a1 a2 a3 = Some (Inr (\<Sum>k = 1..6. cnj (w1 k * w2 k) * w3 k))"
  unfolding invariant_def omegaf_frequency [OF assms(1)] omegaf_frequency [OF assms(2)]
    omegaf_frequency [OF assms(3)] sum_1_6
  by (simp add: bind_r_def vdot_def add.assoc)

lemma rotate_valid:
  assumes "valid_address a" and "b \<le> 6"
  defines "m \<equiv> int_of_digits (map (\<lambda>d. multiplication_table ! d ! b) (int2intvec a))"
  shows "valid_address m" and "a < 10 ^ Suc k \<Longrightarrow> m < 10 ^ Suc k"
proof -
  let ?ms = "map (\<lambda>d. multiplication_table ! d ! b) (int2intvec a)"
  have da: "\<forall>d \<in> set (int2intvec a). d \<le> 6"
    using assms(1) by (simp add: valid_address_def list_all_iff)
  have ms6: "\<forall>d \<in> set ?ms. d \<le> 6" using da assms(2) by (auto intro: multiplication_table_le)
  have ms10: "\<forall>d \<in> set ?ms. d < 10"
  proof
    fix d assume "d \<in> set ?ms"
    with ms6 have "d \<le> 6" by blast
    then show "d < 10" by simp
  qed
  have "digit m i \<le> 6" for i
  proof (cases "i < length ?ms")
    case True
    then have "?ms ! i \<in> set ?ms" by (rule nth_mem)
    with ms6 have "?ms ! i \<le> 6" by blast
    with True show ?thesis unfolding m_def digit_int_of_digits [OF ms10] by simp
  next
    case False
    then show ?thesis unfolding m_def digit_int_of_digits [OF ms10] by simp
  qed
  then show "valid_address m" by (simp add: valid_address_digit)
  show "m < 10 ^ Suc k" if "a < 10 ^ Suc k"
  proof -
    have "length ?ms \<le> Suc k" using int2intvec_length_le [OF that] by simp
    then have "(10::nat) ^ length ?ms \<le> 10 ^ Suc k" by (intro power_increasing) simp_all
    with int_of_digits_bound [OF ms10] show ?thesis unfolding m_def by linarith
  qed
qed


lemma frequency_constant:
  assumes "valid_address a" and "a < 1000" and "k \<le> 6"
    and "113 \<le> rows g" and "113 \<le> cols g"
    and "\<forall>r < rows g. \<forall>c < cols g. cell g r c = x"
  shows "frequency (Suc (Suc fuel)) g a k = Some (Inr x)"
proof -
  define m where "m = int_of_digits (map (\<lambda>d. multiplication_table ! d ! k) (int2intvec a))"
  have mult: "spiral_mult (Suc (Suc fuel)) a k 0 = Some (Inr m)"
    unfolding m_def using assms(1,3) by (rule spiral_mult_digitwise)
  have v: "valid_address m" unfolding m_def using assms(1,3) by (rule rotate_valid)
  have "a < 10 ^ Suc 2" using assms(2) by simp
  then have "m < 10 ^ Suc 2" unfolding m_def by (rule rotate_valid(2) [OF assms(1,3)])
  then have lt: "m < 1000" by simp
  have c: "sa2hex m = Inr (addressToOffset m)" using v by (rule sa2hex_addressToOffset)
  from sa_value_constant [OF c footprint_in_bounds [OF v lt assms(4,5)] assms(6)]
  have "sa_value g m = Inr x" .
  with mult show ?thesis by (auto simp: frequency_Inr)
qed

text \<open>
  C6. For every spectrum and addresses \<open>a1\<close>, \<open>a2\<close>, \<open>a3\<close> whose frequency vectors are
  defined, \<^verbatim>\<open>invariant\<close> is the sum over \<open>k = 1, ..., 6\<close> of
  \<open>conj(w1 k * w2 k) * w3 k\<close>: the conjugation is on the product of the first two vectors,
  not on the third. Here \<open>w k\<close> is the hyperpel value at \<^verbatim>\<open>spiral_mult(a, k)\<close>, stored in
  slot \<open>k - 1\<close> of \<^verbatim>\<open>omegaf\<close>. (Complex arithmetic is exact in this model.)
\<close>

theorem invariant_conjugates_product:
  assumes "\<forall>k \<in> {1..6}. frequency fuel g a1 k = Some (Inr (w1 k))"
    and "\<forall>k \<in> {1..6}. frequency fuel g a2 k = Some (Inr (w2 k))"
    and "\<forall>k \<in> {1..6}. frequency fuel g a3 k = Some (Inr (w3 k))"
  shows "omegaf fuel g a1 = Some (Inr [w1 1, w1 2, w1 3, w1 4, w1 5, w1 6]) \<and>
         invariant fuel g a1 a2 a3 = Some (Inr (\<Sum>k = 1..6. cnj (w1 k * w2 k) * w3 k))"
  using omegaf_frequency [OF assms(1)] invariant_frequency [OF assms] by simp

theorem invariant_conjugates_product_witness:
  "list_all (\<lambda>k. frequency 2 \<lparr>rows = 200, cols = 200, cell = \<lambda>r c. \<i>\<rparr> 1 k = Some (Inr \<i>))
     [1, 2, 3, 4, 5, 6] \<and>
   list_all (\<lambda>k. frequency 2 \<lparr>rows = 200, cols = 200, cell = \<lambda>r c. \<i>\<rparr> 12 k = Some (Inr \<i>))
     [1, 2, 3, 4, 5, 6] \<and>
   list_all (\<lambda>k. frequency 2 \<lparr>rows = 200, cols = 200, cell = \<lambda>r c. \<i>\<rparr> 13 k = Some (Inr \<i>))
     [1, 2, 3, 4, 5, 6] \<and>
   omegaf 2 \<lparr>rows = 200, cols = 200, cell = \<lambda>r c. \<i>\<rparr> 1 = Some (Inr [\<i>, \<i>, \<i>, \<i>, \<i>, \<i>]) \<and>
   invariant 2 \<lparr>rows = 200, cols = 200, cell = \<lambda>r c. \<i>\<rparr> 1 12 13 = Some (Inr (- 6 * \<i>))"
proof -
  let ?g = "\<lparr>rows = 200, cols = 200, cell = \<lambda>r c. \<i>\<rparr>"
  have v: "valid_address 1" "valid_address 12" "valid_address 13"
    by (simp_all add: valid_address_def int2intvec_def int2intvec_loop.simps)
  have f: "\<forall>k \<in> {1..6}. frequency 2 ?g a k = Some (Inr \<i>)" if "valid_address a" "a < 1000" for a
  proof
    fix k :: nat assume "k \<in> {1..6}"
    then have "k \<le> 6" by simp
    from frequency_constant [OF that this, of ?g \<i> 0] show "frequency 2 ?g a k = Some (Inr \<i>)"
      by (simp add: numeral_2_eq_2)
  qed
  have f1: "\<forall>k \<in> {1..6}. frequency 2 ?g 1 k = Some (Inr \<i>)" using v by (intro f) simp_all
  have f2: "\<forall>k \<in> {1..6}. frequency 2 ?g 12 k = Some (Inr \<i>)" using v by (intro f) simp_all
  have f3: "\<forall>k \<in> {1..6}. frequency 2 ?g 13 k = Some (Inr \<i>)" using v by (intro f) simp_all
  from invariant_conjugates_product [OF f1 f2 f3]
  have "omegaf 2 ?g 1 = Some (Inr [\<i>, \<i>, \<i>, \<i>, \<i>, \<i>])"
    and "invariant 2 ?g 1 12 13 = Some (Inr (- 6 * \<i>))" by simp_all
  with f1 f2 f3 show ?thesis by simp
qed

subsection \<open>The loop nest of the bispectrum\<close>



lemma bind_r_return: "bind_r m (\<lambda>v. Some (Inr v)) = m"
  by (simp add: bind_r_def split: option.splits sum.splits)










subsection \<open>Addresses met by the bispectrum\<close>


















subsection \<open>The bispectrum as an ordered list\<close>













end
